theory Spec2Isabelle
  imports Main "HOL-Library.Log_Nat"
begin

section \<open>Python values and exceptions\<close>

text \<open>
  The library is Python 2. A byte string (\<open>str\<close>) is a \<^typ>\<open>string\<close>, whose
  characters are bytes; a \<open>unicode\<close> object is the list of its code points. The
  exceptions that the modelled functions can raise are values of \<open>error\<close>, and a
  function that may raise returns \<open>error + 'a\<close>.
\<close>

datatype error = KeyError | UnicodeDecodeError | ZeroDivisionError

type_synonym unicode = "nat list"

fun then_do :: "error + 'a \<Rightarrow> ('a \<Rightarrow> error + 'b) \<Rightarrow> error + 'b" where
  "then_do (Inl e) f = Inl e"
| "then_do (Inr x) f = f x"

fun for_each :: "('a \<Rightarrow> 's \<Rightarrow> error + 's) \<Rightarrow> 'a list \<Rightarrow> 's \<Rightarrow> error + 's" where
  "for_each body [] s = Inr s"
| "for_each body (x # xs) s = then_do (body x s) (for_each body xs)"

section \<open>The edit distance \<open>_levenshtein\<close>\<close>

text \<open>
  The dictionary \<open>d\<close> of the source is a map from pairs of integers; reading a key
  that was never written raises \<open>KeyError\<close>.
\<close>

type_synonym table = "int \<times> int \<Rightarrow> int option"

definition getitem :: "table \<Rightarrow> int \<times> int \<Rightarrow> error + int" where
  "getitem d k = (case d k of None \<Rightarrow> Inl KeyError | Some v \<Rightarrow> Inr v)"

text \<open>The body of the inner loop, lines 74 to 84, at row \<open>i\<close> and column \<open>j\<close>.\<close>

definition cell :: "'a list \<Rightarrow> 'a list \<Rightarrow> nat \<Rightarrow> nat \<Rightarrow> table \<Rightarrow> error + table" where
  "cell s1 s2 i j d =
     (let cost = (if s1 ! i = s2 ! j then 0 else 1) in
      then_do (getitem d (int i - 1, int j)) (\<lambda>deletion.
      then_do (getitem d (int i, int j - 1)) (\<lambda>insertion.
      then_do (getitem d (int i - 1, int j - 1)) (\<lambda>substitution.
        let d = d((int i, int j) \<mapsto>
                  min (deletion + 1) (min (insertion + 1) (substitution + cost)))
        in if i \<noteq> 0 \<and> j \<noteq> 0 \<and> s1 ! i = s2 ! (j - 1) \<and> s1 ! (i - 1) = s2 ! j
           then then_do (getitem d (int i, int j)) (\<lambda>current.
                then_do (getitem d (int i - 2, int j - 2)) (\<lambda>transposition.
                  Inr (d((int i, int j) \<mapsto> min current (transposition + cost)))))
           else Inr d))))"

definition levenshtein :: "'a list \<Rightarrow> 'a list \<Rightarrow> error + int" where
  "levenshtein s1 s2 =
     (let lenstr1 = length s1;
          lenstr2 = length s2;
          d = fold (\<lambda>i d. d((i, - 1) \<mapsto> i + 1)) [- 1..int lenstr1] Map.empty;
          d = fold (\<lambda>j d. d((- 1, j) \<mapsto> j + 1)) [- 1..int lenstr2] d
      in then_do
           (for_each (\<lambda>i. for_each (\<lambda>j. cell s1 s2 i j) [0..<lenstr2]) [0..<lenstr1] d)
           (\<lambda>d. getitem d (int lenstr1 - 1, int lenstr2 - 1)))"

text \<open>
  The table that the loops fill, as a function of the two prefix lengths: the entry that
  the source stores under the key \<open>(i - 1, j - 1)\<close>.
\<close>

fun osa_table :: "'a list \<Rightarrow> 'a list \<Rightarrow> nat \<Rightarrow> nat \<Rightarrow> int" where
  "osa_table s1 s2 0 j = int j"
| "osa_table s1 s2 (Suc i) 0 = int (Suc i)"
| "osa_table s1 s2 (Suc i) (Suc j) =
     (let cost = (if s1 ! i = s2 ! j then 0 else 1);
          m = min (osa_table s1 s2 i (Suc j) + 1)
                (min (osa_table s1 s2 (Suc i) j + 1) (osa_table s1 s2 i j + cost))
      in if i \<noteq> 0 \<and> j \<noteq> 0 \<and> s1 ! i = s2 ! (j - 1) \<and> s1 ! (i - 1) = s2 ! j
         then min m (osa_table s1 s2 (i - 1) (j - 1) + cost) else m)"

declare osa_table.simps(3) [simp del]

definition filled :: "'a list \<Rightarrow> 'a list \<Rightarrow> nat \<Rightarrow> nat \<Rightarrow> table \<Rightarrow> bool" where
  "filled s1 s2 i j d \<longleftrightarrow>
     (\<forall>a b. a \<le> length s1 \<and> b \<le> length s2 \<and> (a \<le> i \<or> (a = Suc i \<and> b \<le> j) \<or> b = 0)
        \<longrightarrow> d (int a - 1, int b - 1) = Some (osa_table s1 s2 a b))"

subsection \<open>Edit scripts\<close>

text \<open>
  \<open>edit_step a b\<close>: one insertion, deletion or substitution of a single character, or
  one transposition of two adjacent characters, turns \<open>a\<close> into \<open>b\<close>. The
  Damerau-Levenshtein distance is the least number of such steps from \<open>a\<close> to \<open>b\<close>.
\<close>

inductive edit_step :: "'a list \<Rightarrow> 'a list \<Rightarrow> bool" where
  insertion: "edit_step (xs @ ys) (xs @ [c] @ ys)"
| deletion: "edit_step (xs @ [c] @ ys) (xs @ ys)"
| substitution: "edit_step (xs @ [c] @ ys) (xs @ [c'] @ ys)"
| transposition: "edit_step (xs @ [c, c'] @ ys) (xs @ [c', c] @ ys)"

definition damerau_levenshtein :: "'a list \<Rightarrow> 'a list \<Rightarrow> nat" where
  "damerau_levenshtein a b = (LEAST n. (edit_step ^^ n) a b)"

text \<open>
  \<open>osa_edit a b n\<close>: \<open>a\<close> is turned into \<open>b\<close> by \<open>n\<close> operations that work on
  \<open>a\<close> from left to right, each character taking part in at most one of them (an
  alignment of the two strings). The least such \<open>n\<close> is the optimal string alignment
  distance, also called the restricted Damerau-Levenshtein distance.
\<close>

inductive osa_edit :: "'a list \<Rightarrow> 'a list \<Rightarrow> nat \<Rightarrow> bool" where
  stop: "osa_edit [] [] 0"
| keep: "osa_edit xs ys n \<Longrightarrow> osa_edit (x # xs) (x # ys) n"
| delete: "osa_edit xs ys n \<Longrightarrow> osa_edit (x # xs) ys (Suc n)"
| insert: "osa_edit xs ys n \<Longrightarrow> osa_edit xs (y # ys) (Suc n)"
| substitute: "osa_edit xs ys n \<Longrightarrow> osa_edit (x # xs) (y # ys) (Suc n)"
| transpose: "osa_edit xs ys n \<Longrightarrow> osa_edit (x # y # xs) (y # x # ys) (Suc n)"

definition osa_distance :: "'a list \<Rightarrow> 'a list \<Rightarrow> nat" where
  "osa_distance a b = (LEAST n. osa_edit a b n)"

text \<open>The same distance by recursion on the two strings read from their last character.\<close>

fun osa_rec :: "'a list \<Rightarrow> 'a list \<Rightarrow> nat" where
  "osa_rec [] ys = length ys"
| "osa_rec (x # xs) [] = Suc (length xs)"
| "osa_rec (x # xs) (y # ys) =
     (let cost = (if x = y then 0 else 1);
          m = min (osa_rec xs (y # ys) + 1) (min (osa_rec (x # xs) ys + 1) (osa_rec xs ys + cost))
      in case (xs, ys) of
           (x' # xs', y' # ys') \<Rightarrow> if x = y' \<and> x' = y then min m (osa_rec xs' ys' + cost) else m
         | _ \<Rightarrow> m)"

declare osa_rec.simps(3) [simp del]

section \<open>Normalising a title\<close>

text \<open>\<open>str.lower()\<close> on a byte string changes the bytes \<open>A\<close> to \<open>Z\<close> only.\<close>

definition lower :: "string \<Rightarrow> string" where
  "lower s = map (\<lambda>c. if 65 \<le> (of_char c :: nat) \<and> (of_char c :: nat) \<le> 90
                       then char_of (of_char c + (32 :: nat)) else c) s"

text \<open>
  \<open>_un\<close> decodes UTF-8 with the strict error handler: a malformed sequence raises
  \<open>UnicodeDecodeError\<close>. Sequences are one to four bytes long, overlong forms and
  values above U+10FFFF are refused, and the Python 2 decoder lets the surrogates
  U+D800 to U+DFFF through. A code point above U+FFFF is one element of the result, as
  in an interpreter built with four-byte \<open>unicode\<close> characters.
\<close>

definition continuation :: "nat \<Rightarrow> bool" where
  "continuation b \<longleftrightarrow> 0x80 \<le> b \<and> b \<le> 0xBF"

fun utf8_decode :: "nat list \<Rightarrow> error + unicode" where
  "utf8_decode [] = Inr []"
| "utf8_decode (b0 # bs) =
     (if b0 < 0x80 then then_do (utf8_decode bs) (\<lambda>r. Inr (b0 # r))
      else if 0xC2 \<le> b0 \<and> b0 \<le> 0xDF then
        (case bs of
           b1 # rest \<Rightarrow>
             if continuation b1
             then then_do (utf8_decode rest)
                    (\<lambda>r. Inr (((b0 mod 0x20) * 0x40 + b1 mod 0x40) # r))
             else Inl UnicodeDecodeError
         | _ \<Rightarrow> Inl UnicodeDecodeError)
      else if 0xE0 \<le> b0 \<and> b0 \<le> 0xEF then
        (case bs of
           b1 # b2 # rest \<Rightarrow>
             if continuation b1 \<and> continuation b2 \<and> \<not> (b0 = 0xE0 \<and> b1 < 0xA0)
             then then_do (utf8_decode rest)
                    (\<lambda>r. Inr (((b0 mod 0x10) * 0x1000 + (b1 mod 0x40) * 0x40 + b2 mod 0x40) # r))
             else Inl UnicodeDecodeError
         | _ \<Rightarrow> Inl UnicodeDecodeError)
      else if 0xF0 \<le> b0 \<and> b0 \<le> 0xF4 then
        (case bs of
           b1 # b2 # b3 # rest \<Rightarrow>
             if continuation b1 \<and> continuation b2 \<and> continuation b3
                \<and> \<not> (b0 = 0xF0 \<and> b1 < 0x90) \<and> \<not> (b0 = 0xF4 \<and> 0x8F < b1)
             then then_do (utf8_decode rest)
                    (\<lambda>r. Inr (((b0 mod 0x08) * 0x40000 + (b1 mod 0x40) * 0x1000
                                 + (b2 mod 0x40) * 0x40 + b3 mod 0x40) # r))
             else Inl UnicodeDecodeError
         | _ \<Rightarrow> Inl UnicodeDecodeError)
      else Inl UnicodeDecodeError)"

definition un :: "string \<Rightarrow> error + unicode" where
  "un s = utf8_decode (map of_char s)"

text \<open>\<open>_u8\<close> encodes a \<open>unicode\<close> object in UTF-8.\<close>

definition utf8_encode :: "nat \<Rightarrow> nat list" where
  "utf8_encode c =
     (if c < 0x80 then [c]
      else if c < 0x800 then [0xC0 + c div 0x40, 0x80 + c mod 0x40]
      else if c < 0x10000 then [0xE0 + c div 0x1000, 0x80 + c div 0x40 mod 0x40, 0x80 + c mod 0x40]
      else [0xF0 + c div 0x40000, 0x80 + c div 0x1000 mod 0x40, 0x80 + c div 0x40 mod 0x40,
            0x80 + c mod 0x40])"

definition u8 :: "unicode \<Rightarrow> string" where
  "u8 u = map char_of (concat (map utf8_encode u))"

text \<open>
  \<open>string.ascii_letters\<close>, and \<open>_remove_accents\<close>. The function
  \<open>unicodedata.normalize('NFKD', data)\<close> belongs to the Python library and its table
  to the Unicode Character Database; it is the parameter \<open>nfkd\<close> of everything below.
\<close>

definition ascii_letters :: "nat list" where
  "ascii_letters = map of_char (''abcdefghijklmnopqrstuvwxyz'' @ ''ABCDEFGHIJKLMNOPQRSTUVWXYZ'')"

definition remove_accents :: "(unicode \<Rightarrow> unicode) \<Rightarrow> unicode \<Rightarrow> unicode" where
  "remove_accents nfkd data = filter (\<lambda>x. x \<in> set ascii_letters) (nfkd data)"

text \<open>
  The expression \<open>_remove_accents(_un(t.lower()))\<close>, which the source applies to every
  title it compares (lines 180, 184, 191, 272 and 273).
\<close>

definition normalize_title :: "(unicode \<Rightarrow> unicode) \<Rightarrow> string \<Rightarrow> error + unicode" where
  "normalize_title nfkd t = then_do (un (lower t)) (\<lambda>u. Inr (remove_accents nfkd u))"

text \<open>
  NFKD on the code points below U+0100, from the decomposition mappings of the Unicode
  Character Database. On such a string the normal form is the concatenation of the
  mappings: every combining mark that appears follows its own base character, so the
  canonical reordering has nothing to move.
\<close>

definition latin1_decompositions :: "(nat \<times> nat list) list" where
  "latin1_decompositions =
    [(0xA0, [0x20]), (0xA8, [0x20, 0x308]), (0xAA, [0x61]),
     (0xAF, [0x20, 0x304]), (0xB2, [0x32]), (0xB3, [0x33]),
     (0xB4, [0x20, 0x301]), (0xB5, [0x3BC]), (0xB8, [0x20, 0x327]),
     (0xB9, [0x31]), (0xBA, [0x6F]), (0xBC, [0x31, 0x2044, 0x34]),
     (0xBD, [0x31, 0x2044, 0x32]), (0xBE, [0x33, 0x2044, 0x34]), (0xC0, [0x41, 0x300]),
     (0xC1, [0x41, 0x301]), (0xC2, [0x41, 0x302]), (0xC3, [0x41, 0x303]),
     (0xC4, [0x41, 0x308]), (0xC5, [0x41, 0x30A]), (0xC7, [0x43, 0x327]),
     (0xC8, [0x45, 0x300]), (0xC9, [0x45, 0x301]), (0xCA, [0x45, 0x302]),
     (0xCB, [0x45, 0x308]), (0xCC, [0x49, 0x300]), (0xCD, [0x49, 0x301]),
     (0xCE, [0x49, 0x302]), (0xCF, [0x49, 0x308]), (0xD1, [0x4E, 0x303]),
     (0xD2, [0x4F, 0x300]), (0xD3, [0x4F, 0x301]), (0xD4, [0x4F, 0x302]),
     (0xD5, [0x4F, 0x303]), (0xD6, [0x4F, 0x308]), (0xD9, [0x55, 0x300]),
     (0xDA, [0x55, 0x301]), (0xDB, [0x55, 0x302]), (0xDC, [0x55, 0x308]),
     (0xDD, [0x59, 0x301]), (0xE0, [0x61, 0x300]), (0xE1, [0x61, 0x301]),
     (0xE2, [0x61, 0x302]), (0xE3, [0x61, 0x303]), (0xE4, [0x61, 0x308]),
     (0xE5, [0x61, 0x30A]), (0xE7, [0x63, 0x327]), (0xE8, [0x65, 0x300]),
     (0xE9, [0x65, 0x301]), (0xEA, [0x65, 0x302]), (0xEB, [0x65, 0x308]),
     (0xEC, [0x69, 0x300]), (0xED, [0x69, 0x301]), (0xEE, [0x69, 0x302]),
     (0xEF, [0x69, 0x308]), (0xF1, [0x6E, 0x303]), (0xF2, [0x6F, 0x300]),
     (0xF3, [0x6F, 0x301]), (0xF4, [0x6F, 0x302]), (0xF5, [0x6F, 0x303]),
     (0xF6, [0x6F, 0x308]), (0xF9, [0x75, 0x300]), (0xFA, [0x75, 0x301]),
     (0xFB, [0x75, 0x302]), (0xFC, [0x75, 0x308]), (0xFD, [0x79, 0x301]),
     (0xFF, [0x79, 0x308])]"

definition nfkd_latin1 :: "unicode \<Rightarrow> unicode" where
  "nfkd_latin1 u =
     concat (map (\<lambda>c. case map_of latin1_decompositions c of None \<Rightarrow> [c] | Some d \<Rightarrow> d) u)"

section \<open>Floating-point division\<close>

text \<open>
  A Python \<open>float\<close> is an IEEE 754 binary64 number; a finite one is modelled by the
  rational it denotes. \<open>round_double\<close> rounds a rational to 53 significant bits, to
  nearest and ties to even, which is what \<open>float(n)\<close> and the division do. The
  operands here are an edit distance and a length, both below \<open>2 ^ 63\<close>, so that a
  quotient other than zero lies between \<open>2 ^ 63\<close> and its inverse and the exponent
  range of the format plays no role.
\<close>

definition pow2 :: "int \<Rightarrow> rat" where
  "pow2 e = (if 0 \<le> e then 2 ^ nat e else 1 / 2 ^ nat (- e))"

definition ilog2 :: "rat \<Rightarrow> int" where
  "ilog2 x = (let k = bitlen (fst (quotient_of x)) - bitlen (snd (quotient_of x))
              in if pow2 k \<le> x then k else k - 1)"

definition round_half_even :: "rat \<Rightarrow> int" where
  "round_half_even x =
     (let f = \<lfloor>x\<rfloor>; r = x - of_int f
      in if r < 1 / 2 then f else if 1 / 2 < r then f + 1 else if even f then f else f + 1)"

definition round_double :: "rat \<Rightarrow> rat" where
  "round_double x =
     (if x = 0 then 0
      else let e = ilog2 \<bar>x\<bar> - 52 in of_int (round_half_even (x / pow2 e)) * pow2 e)"

definition py_float :: "int \<Rightarrow> rat" where
  "py_float n = round_double (of_int n)"

definition float_div :: "rat \<Rightarrow> rat \<Rightarrow> error + rat" where
  "float_div x y = (if y = 0 then Inl ZeroDivisionError else Inr (round_double (x / y)))"

text \<open>
  The character error rate of lines 192 and 279:
  \<open>float(_levenshtein(t1,t2))/float(len(t1))\<close>.
\<close>

definition cer :: "unicode \<Rightarrow> unicode \<Rightarrow> error + rat" where
  "cer t1 t2 =
     then_do (levenshtein t1 t2) (\<lambda>dist. float_div (py_float dist) (py_float (int (length t1))))"

section \<open>Publications and the title search\<close>

record publication =
  pkey :: string
  ptype :: "string option"
  title :: string
  authors :: "string list"
  url :: "string option"
  journal :: "string option"
  booktitle :: "string option"
  editor :: "string option"
  volume :: "string option"
  pages :: "string option"
  number :: "string option"
  series :: "string option"
  chapter_no :: "string option"
  publisher :: "string option"
  adress :: "string option"
  year :: "string option"
  month :: "string option"
  isbn :: "string option"
  bibtex :: "string list option"

text \<open>The loop of lines 183 to 185: the first publication whose title normalises to \<open>t2\<close>.\<close>

fun exact_scan ::
  "(unicode \<Rightarrow> unicode) \<Rightarrow> unicode \<Rightarrow> publication list \<Rightarrow> error + publication option" where
  "exact_scan nfkd t2 [] = Inr None"
| "exact_scan nfkd t2 (p # ps) =
     then_do (normalize_title nfkd (title p))
       (\<lambda>t1. if t1 = t2 then Inr (Some p) else exact_scan nfkd t2 ps)"

text \<open>
  The loop of lines 190 to 197 either returns a publication from line 194 or runs to its
  end with the values of \<open>min_cer\<close> and \<open>best\<close>.
\<close>

datatype scan = Accepted publication | Scanned rat "publication option"

fun lev_scan ::
  "(unicode \<Rightarrow> unicode) \<Rightarrow> unicode \<Rightarrow> publication list \<Rightarrow> rat \<Rightarrow> publication option
     \<Rightarrow> error + scan" where
  "lev_scan nfkd t2 [] min_cer best = Inr (Scanned min_cer best)"
| "lev_scan nfkd t2 (p # ps) min_cer best =
     then_do (normalize_title nfkd (title p)) (\<lambda>t1.
     then_do (cer t1 t2) (\<lambda>c.
       if c < round_double (1 / 100) then Inr (Accepted p)
       else if c < min_cer then lev_scan nfkd t2 ps c (Some p)
       else lev_scan nfkd t2 ps min_cer best))"

text \<open>
  \<open>search_by_title\<close> of \<open>DBLPResult\<close>; the argument \<open>publications\<close> is
  \<open>self.publications\<close>. The result \<open>None\<close> is Python's \<open>None\<close>.
\<close>

definition search_by_title ::
  "(unicode \<Rightarrow> unicode) \<Rightarrow> publication list \<Rightarrow> string \<Rightarrow> bool \<Rightarrow> rat
     \<Rightarrow> error + publication option" where
  "search_by_title nfkd publications ttl lev threshold =
     then_do (normalize_title nfkd ttl) (\<lambda>t2.
       if \<not> lev then exact_scan nfkd t2 publications
       else then_do (lev_scan nfkd t2 publications 100 None) (\<lambda>r.
              case r of
                Accepted p \<Rightarrow> Inr (Some p)
              | Scanned min_cer best \<Rightarrow> if min_cer < threshold then Inr best else Inr None))"

text \<open>\<open>_is_target\<close> of \<open>DBLPSearch\<close>.\<close>

definition is_target ::
  "(unicode \<Rightarrow> unicode) \<Rightarrow> string \<Rightarrow> string \<Rightarrow> bool \<Rightarrow> rat \<Rightarrow> error + bool" where
  "is_target nfkd t1 t2 lev threshold =
     then_do (normalize_title nfkd t1) (\<lambda>t1.
     then_do (normalize_title nfkd t2) (\<lambda>t2.
       if \<not> lev then (if t1 = t2 then Inr True else Inr False)
       else then_do (cer t1 t2) (\<lambda>c. if c < threshold then Inr True else Inr False)))"

text \<open>
  The character error rate of a candidate title against a target title, both raw: the
  value of \<open>cer\<close> that the search computes for the candidate.
\<close>

definition title_cer :: "(unicode \<Rightarrow> unicode) \<Rightarrow> string \<Rightarrow> string \<Rightarrow> error + rat" where
  "title_cer nfkd candidate target =
     then_do (normalize_title nfkd target) (\<lambda>t2.
     then_do (normalize_title nfkd candidate) (\<lambda>t1. cer t1 t2))"

text \<open>
  The test of line 194 for a candidate title: its character error rate exists and is
  below the float \<open>0.01\<close>.
\<close>

definition below_cutoff :: "(unicode \<Rightarrow> unicode) \<Rightarrow> string \<Rightarrow> string \<Rightarrow> bool" where
  "below_cutoff nfkd candidate target =
     (case title_cer nfkd candidate target of
        Inl e \<Rightarrow> False
      | Inr c \<Rightarrow> c < round_double (1 / 100))"

text \<open>A publication with the four constructor arguments that have no default.\<close>

definition paper :: "string \<Rightarrow> string \<Rightarrow> publication" where
  "paper k t = \<lparr>pkey = k, ptype = Some ''article'', title = t, authors = [], url = None,
     journal = None, booktitle = None, editor = None, volume = None, pages = None,
     number = None, series = None, chapter_no = None, publisher = None, adress = None,
     year = None, month = None, isbn = None, bibtex = None\<rparr>"

section \<open>The loops of \<open>_levenshtein\<close> fill the table\<close>

lemma osa_table_col0 [simp]: "osa_table s1 s2 i 0 = int i"
  by (cases i) simp_all

lemma for_each_append:
  "for_each body (xs @ ys) s = then_do (for_each body xs s) (for_each body ys)"
  by (induction xs arbitrary: s) (simp_all, metis then_do.simps sum.exhaust)

lemma for_each_upt:
  assumes "I 0 s"
    and "\<And>k s. k < n \<Longrightarrow> I k s \<Longrightarrow> \<exists>s'. body k s = Inr s' \<and> I (Suc k) s'"
  shows "\<exists>s'. for_each body [0..<n] s = Inr s' \<and> I n s'"
  using assms(2)
proof (induction n)
  case 0
  then show ?case using assms(1) by simp
next
  case (Suc n)
  then obtain s' where s': "for_each body [0..<n] s = Inr s'" "I n s'"
    by (meson less_Suc_eq)
  from Suc.prems [OF _ s'(2)] obtain s'' where "body n s' = Inr s''" "I (Suc n) s''"
    by blast
  then show ?case using s' by (simp add: for_each_append)
qed

lemma fold_rows:
  "fold (\<lambda>i d. d((i, - 1) \<mapsto> i + 1)) xs d (a, b) =
     (if b = - 1 \<and> a \<in> set xs then Some (a + 1) else d (a, b))"
  by (induction xs arbitrary: d) auto

lemma fold_cols:
  "fold (\<lambda>j d. d((- 1, j) \<mapsto> j + 1)) xs d (a, b) =
     (if a = - 1 \<and> b \<in> set xs then Some (b + 1) else d (a, b))"
  by (induction xs arbitrary: d) auto

lemma filled_init:
  "filled s1 s2 0 0
     (fold (\<lambda>j d. d((- 1, j) \<mapsto> j + 1)) [- 1..int (length s2)]
        (fold (\<lambda>i d. d((i, - 1) \<mapsto> i + 1)) [- 1..int (length s1)] Map.empty))"
  unfolding filled_def by (auto simp: fold_rows fold_cols)

lemma filledD:
  assumes "filled s1 s2 i j d" "a \<le> length s1" "b \<le> length s2"
    and "a \<le> i \<or> (a = Suc i \<and> b \<le> j) \<or> b = 0"
    and "ka = int a - 1" "kb = int b - 1"
  shows "getitem d (ka, kb) = Inr (osa_table s1 s2 a b)"
  using assms unfolding filled_def by (simp add: getitem_def)

lemma getitem_upd_same: "getitem (d(k \<mapsto> v)) k = Inr v"
  by (simp add: getitem_def)

lemma getitem_upd_other: "k' \<noteq> k \<Longrightarrow> getitem (d(k \<mapsto> v)) k' = getitem d k'"
  by (simp add: getitem_def)

lemma cell_value:
  assumes del: "getitem d (int i - 1, int j) = Inr a"
    and ins: "getitem d (int i, int j - 1) = Inr b"
    and sub: "getitem d (int i - 1, int j - 1) = Inr c"
    and tra: "i \<noteq> 0 \<Longrightarrow> j \<noteq> 0 \<Longrightarrow> getitem d (int i - 2, int j - 2) = Inr t"
    and cost: "cost = (if s1 ! i = s2 ! j then 0 else 1)"
    and m: "m = min (a + 1) (min (b + 1) (c + cost))"
  shows "cell s1 s2 i j d = Inr (d((int i, int j) \<mapsto>
      (if i \<noteq> 0 \<and> j \<noteq> 0 \<and> s1 ! i = s2 ! (j - 1) \<and> s1 ! (i - 1) = s2 ! j
       then min m (t + cost) else m)))"
proof (cases "i \<noteq> 0 \<and> j \<noteq> 0 \<and> s1 ! i = s2 ! (j - 1) \<and> s1 ! (i - 1) = s2 ! j")
  case True
  then have "getitem (d((int i, int j) \<mapsto> m)) (int i - 2, int j - 2) = Inr t"
    using tra by (subst getitem_upd_other) auto
  then show ?thesis
    unfolding cell_def Let_def del ins sub then_do.simps cost [symmetric] m [symmetric]
    using True by (simp add: getitem_upd_same)
next
  case False
  then show ?thesis
    unfolding cell_def Let_def del ins sub then_do.simps cost [symmetric] m [symmetric]
    by (simp only: if_False)
qed

lemma cell_filled:
  assumes inv: "filled s1 s2 i j d" and i: "i < length s1" and j: "j < length s2"
  shows "\<exists>d'. cell s1 s2 i j d = Inr d' \<and> filled s1 s2 i (Suc j) d'"
proof -
  have del: "getitem d (int i - 1, int j) = Inr (osa_table s1 s2 i (Suc j))"
    using i j by (intro filledD [OF inv]) auto
  have ins: "getitem d (int i, int j - 1) = Inr (osa_table s1 s2 (Suc i) j)"
    using i j by (intro filledD [OF inv]) auto
  have sub: "getitem d (int i - 1, int j - 1) = Inr (osa_table s1 s2 i j)"
    using i j by (intro filledD [OF inv]) auto
  have tra: "getitem d (int i - 2, int j - 2) = Inr (osa_table s1 s2 (i - 1) (j - 1))"
    if "i \<noteq> 0" "j \<noteq> 0"
    using i j that by (intro filledD [OF inv]) auto
  have cell: "cell s1 s2 i j d = Inr (d((int i, int j) \<mapsto> osa_table s1 s2 (Suc i) (Suc j)))"
    by (subst cell_value [OF del ins sub tra refl refl])
       (simp_all add: osa_table.simps(3) Let_def)
  have "filled s1 s2 i (Suc j) (d((int i, int j) \<mapsto> osa_table s1 s2 (Suc i) (Suc j)))"
    unfolding filled_def
  proof (intro allI impI)
    fix a b
    assume ab: "a \<le> length s1 \<and> b \<le> length s2 \<and> (a \<le> i \<or> a = Suc i \<and> b \<le> Suc j \<or> b = 0)"
    show "(d((int i, int j) \<mapsto> osa_table s1 s2 (Suc i) (Suc j))) (int a - 1, int b - 1)
            = Some (osa_table s1 s2 a b)"
    proof (cases "a = Suc i \<and> b = Suc j")
      case True
      then show ?thesis by simp
    next
      case False
      then have neq: "(int a - 1, int b - 1) \<noteq> (int i, int j)" by auto
      have "d (int a - 1, int b - 1) = Some (osa_table s1 s2 a b)"
        using inv ab False unfolding filled_def by (auto simp: le_Suc_eq)
      then show ?thesis by (simp only: fun_upd_other [OF neq])
    qed
  qed
  with cell show ?thesis by blast
qed

lemma row_filled:
  assumes inv: "filled s1 s2 i 0 d" and i: "i < length s1"
  shows "\<exists>d'. for_each (\<lambda>j. cell s1 s2 i j) [0..<length s2] d = Inr d' \<and> filled s1 s2 (Suc i) 0 d'"
proof -
  have "\<exists>d'. for_each (\<lambda>j. cell s1 s2 i j) [0..<length s2] d = Inr d'
          \<and> filled s1 s2 i (length s2) d'"
    by (rule for_each_upt [where I = "\<lambda>j. filled s1 s2 i j" and body = "\<lambda>j. cell s1 s2 i j"])
       (simp_all add: inv cell_filled i)
  moreover have "filled s1 s2 (Suc i) 0 d'" if "filled s1 s2 i (length s2) d'" for d'
    using that unfolding filled_def by (auto simp: le_Suc_eq)
  ultimately show ?thesis by blast
qed

text \<open>
  \<open>_levenshtein\<close> never raises \<open>KeyError\<close>, and it returns the last entry of the table.
\<close>

lemma levenshtein_table:
  "levenshtein s1 s2 = Inr (osa_table s1 s2 (length s1) (length s2))"
proof -
  let ?d0 = "fold (\<lambda>j d. d((- 1, j) \<mapsto> j + 1)) [- 1..int (length s2)]
        (fold (\<lambda>i d. d((i, - 1) \<mapsto> i + 1)) [- 1..int (length s1)] Map.empty)"
  have "\<exists>d'. for_each (\<lambda>i. for_each (\<lambda>j. cell s1 s2 i j) [0..<length s2]) [0..<length s1] ?d0
           = Inr d' \<and> filled s1 s2 (length s1) 0 d'"
    by (rule for_each_upt [where I = "\<lambda>i. filled s1 s2 i 0"
          and body = "\<lambda>i. for_each (\<lambda>j. cell s1 s2 i j) [0..<length s2]"])
       (simp_all add: filled_init row_filled)
  then obtain d' where d': "for_each (\<lambda>i. for_each (\<lambda>j. cell s1 s2 i j) [0..<length s2])
      [0..<length s1] ?d0 = Inr d'" "filled s1 s2 (length s1) 0 d'"
    by blast
  have "getitem d' (int (length s1) - 1, int (length s2) - 1)
          = Inr (osa_table s1 s2 (length s1) (length s2))"
    by (rule filledD [OF d'(2)]) simp_all
  then show ?thesis
    by (simp add: levenshtein_def Let_def d'(1))
qed

lemma osa_table_sym: "osa_table s1 s2 i j = osa_table s2 s1 j i"
proof (induction s1 s2 i j rule: osa_table.induct)
  case (3 s1 s2 i j)
  have c: "(s2 ! j = s1 ! i) = (s1 ! i = s2 ! j)" by auto
  have t: "(j \<noteq> 0 \<and> i \<noteq> 0 \<and> s2 ! j = s1 ! (i - 1) \<and> s2 ! (j - 1) = s1 ! i)
      = (i \<noteq> 0 \<and> j \<noteq> 0 \<and> s1 ! i = s2 ! (j - 1) \<and> s1 ! (i - 1) = s2 ! j)" by auto
  show ?case
    unfolding osa_table.simps(3) [of s1 s2] osa_table.simps(3) [of s2 s1] Let_def c t
    using 3 by (auto simp: min.commute min.left_commute)
qed simp_all

section \<open>The table holds the optimal string alignment distance\<close>

lemma osa_rec_Nil2 [simp]: "osa_rec xs [] = length xs"
  by (cases xs) simp_all

lemma osa_rec_step:
  "osa_rec (x # xs) (y # ys) =
     (let cost = (if x = y then 0 else 1);
          m = min (osa_rec xs (y # ys) + 1) (min (osa_rec (x # xs) ys + 1) (osa_rec xs ys + cost))
      in if \<exists>xs' ys'. xs = y # xs' \<and> ys = x # ys'
         then min m (osa_rec (tl xs) (tl ys) + cost) else m)"
  by (subst osa_rec.simps(3)) (auto simp: Let_def split: list.splits)

lemma osa_rec_swap:
  "osa_rec (x # y # xs) (y # x # ys) =
     min (min (osa_rec (y # xs) (y # x # ys) + 1)
            (min (osa_rec (x # y # xs) (x # ys) + 1)
               (osa_rec (y # xs) (x # ys) + (if x = y then 0 else 1))))
       (osa_rec xs ys + (if x = y then 0 else 1))"
  by (subst osa_rec_step) (simp add: Let_def)

lemma osa_rec_noswap:
  assumes "\<not> (\<exists>xs' ys'. xs = y # xs' \<and> ys = x # ys')"
  shows "osa_rec (x # xs) (y # ys) =
     min (osa_rec xs (y # ys) + 1)
       (min (osa_rec (x # xs) ys + 1) (osa_rec xs ys + (if x = y then 0 else 1)))"
  by (subst osa_rec_step) (simp only: assms Let_def if_False)

lemma osa_rec_cons:
  "osa_rec (x # xs) (y # ys) \<le> osa_rec xs (y # ys) + 1"
  "osa_rec (x # xs) (y # ys) \<le> osa_rec (x # xs) ys + 1"
  "osa_rec (x # xs) (y # ys) \<le> osa_rec xs ys + (if x = y then 0 else 1)"
  by (subst osa_rec_step, simp add: Let_def min_le_iff_disj)+

lemma osa_rec_transpose:
  "osa_rec (x # y # xs) (y # x # ys) \<le> osa_rec xs ys + (if x = y then 0 else 1)"
  by (subst osa_rec_step) (simp add: Let_def min_le_iff_disj)

lemma osa_rec_least: "osa_edit xs ys n \<Longrightarrow> osa_rec xs ys \<le> n"
proof (induction rule: osa_edit.induct)
  case stop
  then show ?case by simp
next
  case (keep xs ys n x)
  then show ?case using osa_rec_cons(3) [of x xs x ys] by simp
next
  case (delete xs ys n x)
  show ?case
  proof (cases ys)
    case Nil
    with delete show ?thesis by simp
  next
    case (Cons y ys')
    with delete show ?thesis using osa_rec_cons(1) [of x xs y ys'] by simp
  qed
next
  case (insert xs ys n y)
  show ?case
  proof (cases xs)
    case Nil
    with insert show ?thesis by simp
  next
    case (Cons x xs')
    with insert show ?thesis using osa_rec_cons(2) [of x xs' y ys] by simp
  qed
next
  case (substitute xs ys n x y)
  then show ?case using osa_rec_cons(3) [of x xs y ys] by (simp split: if_splits)
next
  case (transpose xs ys n x y)
  then show ?case using osa_rec_transpose [of x y xs ys] by (simp split: if_splits)
qed

lemma osa_edit_diag:
  "osa_edit xs ys n \<Longrightarrow> osa_edit (x # xs) (y # ys) (n + (if x = y then 0 else 1))"
  by (auto intro: osa_edit.intros)

lemma osa_edit_swap:
  "osa_edit xs ys n \<Longrightarrow> osa_edit (x # y # xs) (y # x # ys) (n + (if x = y then 0 else 1))"
  by (auto intro: osa_edit.intros)

lemma osa_edit_Nil1: "osa_edit [] ys (length ys)"
  by (induction ys) (auto intro: osa_edit.intros)

lemma osa_edit_Nil2: "osa_edit xs [] (length xs)"
  by (induction xs) (auto intro: osa_edit.intros)

lemma osa_rec_achieved: "osa_edit xs ys (osa_rec xs ys)"
proof (induction xs ys rule: osa_rec.induct)
  case (1 ys)
  then show ?case by (simp add: osa_edit_Nil1)
next
  case (2 x xs)
  then show ?case using osa_edit_Nil2 [of "x # xs"] by simp
next
  case (3 x xs y ys)
  let ?cost = "if x = y then 0 else (1::nat)"
  let ?m = "min (osa_rec xs (y # ys) + 1) (min (osa_rec (x # xs) ys + 1) (osa_rec xs ys + ?cost))"
  have del: "osa_edit (x # xs) (y # ys) (osa_rec xs (y # ys) + 1)"
    using "3.IH"(1) [OF refl] by (simp add: osa_edit.delete)
  have ins: "osa_edit (x # xs) (y # ys) (osa_rec (x # xs) ys + 1)"
    using "3.IH"(2) [OF refl] by (simp add: osa_edit.insert)
  have sub: "osa_edit (x # xs) (y # ys) (osa_rec xs ys + ?cost)"
    using "3.IH"(3) [OF refl] by (rule osa_edit_diag)
  have m: "osa_edit (x # xs) (y # ys) ?m"
    using del ins sub by (simp add: min_def)
  show ?case
  proof (cases "\<exists>xs' ys'. xs = y # xs' \<and> ys = x # ys'")
    case True
    then obtain xs' ys' where eq: "xs = y # xs'" "ys = x # ys'" by blast
    have "osa_edit xs' ys' (osa_rec xs' ys')"
      by (rule "3.IH"(4) [OF refl refl _ eq]) (simp_all add: eq)
    then have "osa_edit (x # xs) (y # ys) (osa_rec xs' ys' + ?cost)"
      unfolding eq by (rule osa_edit_swap)
    moreover have "osa_rec (x # xs) (y # ys) = min ?m (osa_rec xs' ys' + ?cost)"
      by (subst osa_rec_step) (simp add: Let_def eq)
    ultimately show ?thesis using m by (simp add: min_def)
  next
    case False
    then have "osa_rec (x # xs) (y # ys) = ?m"
      by (rule osa_rec_noswap)
    then show ?thesis using m by simp
  qed
qed

lemma osa_edit_append:
  "osa_edit xs ys n \<Longrightarrow> osa_edit xs' ys' m \<Longrightarrow> osa_edit (xs @ xs') (ys @ ys') (n + m)"
  by (induction rule: osa_edit.induct) (auto intro: osa_edit.intros)

lemma osa_edit_rev: "osa_edit xs ys n \<Longrightarrow> osa_edit (rev xs) (rev ys) n"
proof (induction rule: osa_edit.induct)
  case stop
  show ?case by (simp add: osa_edit.stop)
next
  case (keep xs ys n x)
  have "osa_edit [x] [x] 0" by (intro osa_edit.intros)
  from osa_edit_append [OF keep.IH this] show ?case by simp
next
  case (delete xs ys n x)
  have "osa_edit [x] [] (Suc 0)" by (intro osa_edit.intros)
  from osa_edit_append [OF delete.IH this] show ?case by simp
next
  case (insert xs ys n y)
  have "osa_edit [] [y] (Suc 0)" by (intro osa_edit.intros)
  from osa_edit_append [OF insert.IH this] show ?case by simp
next
  case (substitute xs ys n x y)
  have "osa_edit [x] [y] (Suc 0)" by (intro osa_edit.intros)
  from osa_edit_append [OF substitute.IH this] show ?case by simp
next
  case (transpose xs ys n x y)
  have "osa_edit [y, x] [x, y] (Suc 0)" by (intro osa_edit.intros)
  from osa_edit_append [OF transpose.IH this] show ?case by simp
qed

lemma osa_distance_rec: "osa_distance a b = osa_rec (rev a) (rev b)"
  unfolding osa_distance_def
proof (rule Least_equality)
  show "osa_edit a b (osa_rec (rev a) (rev b))"
    using osa_edit_rev [OF osa_rec_achieved [of "rev a" "rev b"]] by simp
next
  fix n assume "osa_edit a b n"
  then show "osa_rec (rev a) (rev b) \<le> n"
    by (intro osa_rec_least osa_edit_rev)
qed

lemma rev_take_Suc: "i < length s \<Longrightarrow> rev (take (Suc i) s) = s ! i # rev (take i s)"
  by (simp add: take_Suc_conv_app_nth)

lemma int_cost: "int (if c then 0 else 1) = (if c then 0 else 1)"
  by simp

lemma osa_table_rec:
  "i \<le> length s1 \<Longrightarrow> j \<le> length s2 \<Longrightarrow>
     osa_table s1 s2 i j = int (osa_rec (rev (take i s1)) (rev (take j s2)))"
proof (induction s1 s2 i j rule: osa_table.induct)
  case (1 s1 s2 j)
  then show ?case by simp
next
  case (2 s1 s2 i)
  then show ?case by simp
next
  case (3 s1 s2 i j)
  let ?X = "rev (take i s1)" and ?Y = "rev (take j s2)"
  let ?x = "s1 ! i" and ?y = "s2 ! j"
  from 3 have i: "i < length s1" and j: "j < length s2" by simp_all
  have a: "osa_table s1 s2 i (Suc j) = int (osa_rec ?X (?y # ?Y))"
    using "3.IH"(1) [OF refl] i j by (simp add: rev_take_Suc)
  have b: "osa_table s1 s2 (Suc i) j = int (osa_rec (?x # ?X) ?Y)"
    using "3.IH"(2) [OF refl] i j by (simp add: rev_take_Suc)
  have c: "osa_table s1 s2 i j = int (osa_rec ?X ?Y)"
    using "3.IH"(3) [OF refl] i j by simp
  have lhs: "rev (take (Suc i) s1) = ?x # ?X" "rev (take (Suc j) s2) = ?y # ?Y"
    using i j by (simp_all add: rev_take_Suc)
  show ?case
  proof (cases "i \<noteq> 0 \<and> j \<noteq> 0 \<and> s1 ! i = s2 ! (j - 1) \<and> s1 ! (i - 1) = s2 ! j")
    case True
    then obtain i' j' where ij: "i = Suc i'" "j = Suc j'"
      by (metis not0_implies_Suc)
    let ?X' = "rev (take i' s1)" and ?Y' = "rev (take j' s2)"
    have d: "osa_table s1 s2 (i - 1) (j - 1) = int (osa_rec ?X' ?Y')"
      using "3.IH"(4) [OF refl refl True] i j ij by simp
    have X: "?X = ?y # ?X'" and Y: "?Y = ?x # ?Y'"
      using i j ij True by (simp_all add: rev_take_Suc)
    have "osa_table s1 s2 (Suc i) (Suc j) =
        min (min (osa_table s1 s2 i (Suc j) + 1)
               (min (osa_table s1 s2 (Suc i) j + 1)
                  (osa_table s1 s2 i j + (if ?x = ?y then 0 else 1))))
          (osa_table s1 s2 (i - 1) (j - 1) + (if ?x = ?y then 0 else 1))"
      by (subst osa_table.simps(3)) (simp only: Let_def if_P [OF True])
    also have "\<dots> = int (osa_rec (?x # ?y # ?X') (?y # ?x # ?Y'))"
      unfolding a b c d osa_rec_swap X Y
      by (simp only: of_nat_min of_nat_add int_cost of_nat_1)
    finally show ?thesis
      unfolding lhs X Y .
  next
    case False
    have no: "\<not> (\<exists>xs' ys'. ?X = ?y # xs' \<and> ?Y = ?x # ys')"
    proof
      assume "\<exists>xs' ys'. ?X = ?y # xs' \<and> ?Y = ?x # ys'"
      then obtain xs' ys' where eq: "?X = ?y # xs'" "?Y = ?x # ys'" by blast
      have "i \<noteq> 0"
      proof
        assume "i = 0"
        then have "?X = []" by simp
        with eq(1) show False by simp
      qed
      moreover have "j \<noteq> 0"
      proof
        assume "j = 0"
        then have "?Y = []" by simp
        with eq(2) show False by simp
      qed
      ultimately have "i \<noteq> 0" "j \<noteq> 0" .
      then obtain i' j' where ij: "i = Suc i'" "j = Suc j'"
        by (metis not0_implies_Suc)
      have "?X = s1 ! i' # rev (take i' s1)" "?Y = s2 ! j' # rev (take j' s2)"
        using i j ij by (simp_all add: rev_take_Suc)
      with eq have "s1 ! i' = ?y" "s2 ! j' = ?x" by simp_all
      with False ij show False by simp
    qed
    have "osa_table s1 s2 (Suc i) (Suc j) =
        min (osa_table s1 s2 i (Suc j) + 1)
          (min (osa_table s1 s2 (Suc i) j + 1)
             (osa_table s1 s2 i j + (if ?x = ?y then 0 else 1)))"
      by (subst osa_table.simps(3)) (simp only: Let_def if_not_P [OF False])
    also have "\<dots> = int (osa_rec (?x # ?X) (?y # ?Y))"
      unfolding a b c osa_rec_noswap [OF no]
      by (simp only: of_nat_min of_nat_add int_cost of_nat_1)
    finally show ?thesis
      unfolding lhs .
  qed
qed

section \<open>Symmetry of the edit distance\<close>

text \<open>
  Claim C9. The edit distance is symmetric: for all strings \<open>a\<close> and \<open>b\<close>,
  \<open>_levenshtein(a, b)\<close> and \<open>_levenshtein(b, a)\<close> return the same number.
\<close>

theorem levenshtein_symmetric: "levenshtein a b = levenshtein b a"
  by (simp add: levenshtein_table osa_table_sym)

section \<open>Which distance \<open>_levenshtein\<close> computes\<close>

lemma two_edits: "(edit_step ^^ 2) ''ca'' ''abc''"
proof -
  have "edit_step ([] @ [CHR ''c'', CHR ''a''] @ []) ([] @ [CHR ''a'', CHR ''c''] @ [])"
    by (rule edit_step.transposition)
  then have 1: "edit_step ''ca'' ''ac''" by simp
  have "edit_step (''a'' @ ''c'') (''a'' @ [CHR ''b''] @ ''c'')"
    by (rule edit_step.insertion)
  then have 2: "edit_step ''ac'' ''abc''" by simp
  have "(edit_step ^^ Suc (Suc 0)) ''ca'' ''abc''"
    using 1 2 by (auto intro: relcomppI)
  then show ?thesis by (simp add: numeral_2_eq_2)
qed

text \<open>
  Claim C2, as stated, fails. Two operations turn \<open>ca\<close> into \<open>abc\<close> (transpose to
  \<open>ac\<close>, then insert \<open>b\<close>), so the Damerau-Levenshtein distance is at most 2, while
  \<open>_levenshtein("ca", "abc")\<close> returns 3.
\<close>

theorem levenshtein_not_damerau:
  "levenshtein ''ca'' ''abc'' \<noteq> Inr (int (damerau_levenshtein ''ca'' ''abc''))"
proof -
  have "damerau_levenshtein ''ca'' ''abc'' \<le> 2"
    unfolding damerau_levenshtein_def by (rule Least_le) (rule two_edits)
  moreover have "levenshtein ''ca'' ''abc'' = Inr 3"
    by code_simp
  ultimately show ?thesis by simp
qed

text \<open>
  Claim C2, amended. For all strings \<open>a\<close> and \<open>b\<close>, \<open>_levenshtein(a, b)\<close> returns
  the optimal string alignment distance (the restricted Damerau-Levenshtein distance):
  the least number of single-character insertions, deletions and substitutions and of
  transpositions of two adjacent characters in an edit script that works through \<open>a\<close>
  from left to right and edits no character more than once.
\<close>

theorem levenshtein_osa: "levenshtein a b = Inr (int (osa_distance a b))"
  by (simp add: levenshtein_table osa_table_rec osa_distance_rec)

theorem levenshtein_osa_witness:
  "levenshtein ''ca'' ''abc'' = Inr 3 \<and> osa_distance ''ca'' ''abc'' = 3"
proof -
  have "levenshtein ''ca'' ''abc'' = Inr 3"
    by code_simp
  with levenshtein_osa [of "''ca''" "''abc''"] show ?thesis by simp
qed

section \<open>When the character error rate is defined\<close>

lemma pow2_powi: "pow2 e = 2 powi e"
  by (simp add: pow2_def power_int_def inverse_eq_divide power_one_over)

lemma pow2_pos: "0 < pow2 e"
  by (simp add: pow2_powi)

lemma ilog2_le:
  assumes "0 < x"
  shows "pow2 (ilog2 x) \<le> x"
proof -
  obtain a b where q: "quotient_of x = (a, b)" by (cases "quotient_of x")
  then have b: "0 < b" and x: "x = of_int a / of_int b"
    by (simp_all add: quotient_of_denom_pos quotient_of_div)
  with assms have a: "0 < a"
    by (simp add: zero_less_divide_iff)
  let ?k = "bitlen a - bitlen b"
  have la: "0 < bitlen a" and lb: "0 < bitlen b"
    using a b bitlen_nonneg [of a] bitlen_nonneg [of b]
      bitlen_eq_zero_iff [of a] bitlen_eq_zero_iff [of b] by linarith+
  have "(2::int) ^ nat (bitlen a - 1) \<le> a"
    using bitlen_bounds [OF a] by simp
  then have "(of_int (2 ^ nat (bitlen a - 1)) :: rat) \<le> of_int a"
    by (simp only: of_int_le_iff)
  then have 1: "(2::rat) powi (bitlen a - 1) \<le> of_int a"
    using la by (simp add: power_int_def)
  have "b < 2 ^ nat (bitlen b)"
    using bitlen_bounds [OF b] by simp
  then have "(of_int b :: rat) < of_int (2 ^ nat (bitlen b))"
    by (simp only: of_int_less_iff)
  then have 2: "(of_int b :: rat) \<le> 2 powi (bitlen b)"
    using lb by (simp add: power_int_def)
  have "(2::rat) powi (?k - 1) = 2 powi (bitlen a - 1) / 2 powi (bitlen b)"
    by (simp add: power_int_diff)
  also have "\<dots> \<le> of_int a / of_int b"
    using 1 2 a b by (intro frac_le) simp_all
  finally have low: "pow2 (?k - 1) \<le> x"
    by (simp add: pow2_powi x)
  show ?thesis
    using low by (simp add: ilog2_def q Let_def)
qed

lemma round_half_even_ge: "\<lfloor>x\<rfloor> \<le> round_half_even x"
  by (simp add: round_half_even_def Let_def)

lemma round_double_pos:
  assumes "0 < x"
  shows "0 < round_double x"
proof -
  let ?e = "ilog2 \<bar>x\<bar> - 52"
  have "pow2 ?e \<le> pow2 (ilog2 x)"
    using assms by (simp add: pow2_powi power_int_increasing)
  also have "\<dots> \<le> x" using assms by (rule ilog2_le)
  finally have "1 \<le> x / pow2 ?e"
    by (simp add: pow2_pos le_divide_eq)
  then have "1 \<le> \<lfloor>x / pow2 ?e\<rfloor>" by (simp add: le_floor_iff)
  then have "0 < round_half_even (x / pow2 ?e)"
    using round_half_even_ge [of "x / pow2 ?e"] by linarith
  then show ?thesis
    using assms by (simp add: round_double_def Let_def pow2_pos)
qed

lemma py_float_0 [simp]: "py_float 0 = 0"
  by (simp add: py_float_def round_double_def)

lemma py_float_pos: "0 < n \<Longrightarrow> 0 < py_float n"
  by (simp add: py_float_def round_double_pos)

lemma cer_Nil: "cer [] t2 = Inl ZeroDivisionError"
  by (simp add: cer_def levenshtein_table float_div_def)

lemma cer_defined: "t1 \<noteq> [] \<Longrightarrow> \<exists>c. cer t1 t2 = Inr c"
  using py_float_pos [of "int (length t1)"]
  by (simp add: cer_def levenshtein_table float_div_def)

section \<open>Normal forms of some titles\<close>

lemma normalize_titleI:
  assumes "un (lower t) = Inr u" and "nfkd u = v"
    and "filter (\<lambda>x. x \<in> set ascii_letters) v = w"
  shows "normalize_title nfkd t = Inr w"
  using assms by (simp add: normalize_title_def remove_accents_def)

lemma normalize_title_letters:
  "normalize_title nfkd t = Inr n \<Longrightarrow> set n \<subseteq> set ascii_letters"
  by (cases "un (lower t)") (auto simp: normalize_title_def remove_accents_def)

lemma normalize_godel:
  "normalize_title nfkd_latin1 (''G'' @ [CHR 0xC3, CHR 0xB6] @ ''del, Kurt (1931)!'')
     = Inr (map of_char ''godelkurt'')"
  apply (rule normalize_titleI)
    apply (simp add: un_def lower_def continuation_def)
   apply (simp add: nfkd_latin1_def latin1_decompositions_def)
  apply (simp add: ascii_letters_def)
  done

lemma remove_accents_godel:
  "remove_accents nfkd_latin1 ([0x47, 0xF6] @ map of_char ''del, Kurt (1931)!'')
     = map of_char ''GodelKurt''"
proof -
  have "nfkd_latin1 ([0x47, 0xF6] @ map of_char ''del, Kurt (1931)!'')
      = [0x47, 0x6F, 0x308] @ map of_char ''del, Kurt (1931)!''"
    by (simp add: nfkd_latin1_def latin1_decompositions_def)
  then show ?thesis
    by (simp add: remove_accents_def ascii_letters_def)
qed

lemma normalize_ecole:
  "normalize_title nfkd_latin1 ([CHR 0xC3, CHR 0x89] @ ''cole'') = Inr (map of_char ''Ecole'')"
  apply (rule normalize_titleI)
    apply (simp add: un_def lower_def continuation_def)
   apply (simp add: nfkd_latin1_def latin1_decompositions_def)
  apply (simp add: ascii_letters_def)
  done

lemma normalize_E_acute:
  "normalize_title nfkd_latin1 [CHR 0xC3, CHR 0x89] = Inr [0x45]"
  apply (rule normalize_titleI)
    apply (simp add: un_def lower_def continuation_def)
   apply (simp add: nfkd_latin1_def latin1_decompositions_def)
  apply (simp add: ascii_letters_def)
  done

lemma normalize_E:
  "normalize_title nfkd_latin1 (u8 [0x45]) = Inr [0x65]"
  apply (rule normalize_titleI)
    apply (simp add: un_def lower_def continuation_def u8_def utf8_encode_def)
   apply (simp add: nfkd_latin1_def latin1_decompositions_def)
  apply (simp add: ascii_letters_def)
  done

lemma normalize_2001: "normalize_title nfkd_latin1 ''2001'' = Inr []"
  apply (rule normalize_titleI)
    apply (simp add: un_def lower_def continuation_def)
   apply (simp add: nfkd_latin1_def latin1_decompositions_def)
  apply (simp add: ascii_letters_def)
  done

lemma normalize_abc: "normalize_title nfkd_latin1 ''abc'' = Inr [97, 98, 99]"
  apply (rule normalize_titleI)
    apply (simp add: un_def lower_def continuation_def)
   apply (simp add: nfkd_latin1_def latin1_decompositions_def)
  apply (simp add: ascii_letters_def)
  done

lemma normalize_abd: "normalize_title nfkd_latin1 ''abd'' = Inr [97, 98, 100]"
  apply (rule normalize_titleI)
    apply (simp add: un_def lower_def continuation_def)
   apply (simp add: nfkd_latin1_def latin1_decompositions_def)
  apply (simp add: ascii_letters_def)
  done

lemma normalize_Deep_Learning:
  "normalize_title nfkd_latin1 ''Deep Learning'' = Inr (map of_char ''deeplearning'')"
  apply (rule normalize_titleI)
    apply (simp add: un_def lower_def continuation_def)
   apply (simp add: nfkd_latin1_def latin1_decompositions_def)
  apply (simp add: ascii_letters_def)
  done

lemma normalize_deep_learning:
  "normalize_title nfkd_latin1 ''deep learning'' = Inr (map of_char ''deeplearning'')"
  apply (rule normalize_titleI)
    apply (simp add: un_def lower_def continuation_def)
   apply (simp add: nfkd_latin1_def latin1_decompositions_def)
  apply (simp add: ascii_letters_def)
  done

section \<open>Character error rates of some titles\<close>

lemma py_float_small: "py_float 1 = 1" "py_float 3 = 3"
  by code_simp+

lemma cer_abd: "cer [97, 98, 100] [97, 98, 99] = Inr (round_double (1 / 3))"
proof -
  have "levenshtein [97, 98, 100] [97, 98, 99 :: nat] = Inr 1"
    by code_simp
  then show ?thesis
    by (simp add: cer_def py_float_small float_div_def)
qed

lemma cer_abc: "cer [97, 98, 99] [97, 98, 99] = Inr 0"
proof -
  have "levenshtein [97, 98, 99] [97, 98, 99 :: nat] = Inr 0"
    by code_simp
  then show ?thesis
    by (simp add: cer_def py_float_small float_div_def round_double_def)
qed

lemma third_not_below: "\<not> round_double (1 / 3) < round_double (1 / 100)"
  by code_simp

lemma third_below_100: "round_double (1 / 3) < 100"
  by code_simp

lemma cutoff_pos: "0 < round_double (1 / 100)"
  by (rule round_double_pos) simp

lemma title_paper [simp]: "title (paper k t) = t"
  by (simp add: paper_def)

section \<open>The scan in approximate mode\<close>

lemma search_empty_first:
  assumes "normalize_title nfkd ttl = Inr t2" and "normalize_title nfkd (title p) = Inr []"
  shows "search_by_title nfkd (p # ps) ttl True threshold = Inl ZeroDivisionError"
  using assms by (simp add: search_by_title_def cer_Nil)

lemma is_target_empty:
  assumes "normalize_title nfkd t1 = Inr []" and "normalize_title nfkd t2 = Inr u"
  shows "is_target nfkd t1 t2 True threshold = Inl ZeroDivisionError"
  using assms by (simp add: is_target_def cer_Nil)

lemma lev_scan_first:
  assumes "i < length ps"
    and "normalize_title nfkd (title (ps ! i)) = Inr t1" "cer t1 t2 = Inr c"
      "c < round_double (1 / 100)"
    and "\<forall>j<i. \<exists>u c'. normalize_title nfkd (title (ps ! j)) = Inr u \<and> cer u t2 = Inr c'
            \<and> \<not> c' < round_double (1 / 100)"
  shows "lev_scan nfkd t2 ps min_cer best = Inr (Accepted (ps ! i))"
  using assms
proof (induction ps arbitrary: i min_cer best)
  case Nil
  then show ?case by simp
next
  case (Cons p ps)
  show ?case
  proof (cases i)
    case 0
    with Cons.prems(2-4) show ?thesis by simp
  next
    case (Suc k)
    have "0 < i" using Suc by simp
    from Cons.prems(5) [rule_format, OF this] obtain u c' where
      u: "normalize_title nfkd (title p) = Inr u" "cer u t2 = Inr c'"
        "\<not> c' < round_double (1 / 100)"
      by auto
    have rest: "lev_scan nfkd t2 ps m b = Inr (Accepted (ps ! k))" for m b
    proof (rule Cons.IH)
      show "k < length ps" using Cons.prems(1) Suc by simp
      show "normalize_title nfkd (title (ps ! k)) = Inr t1" using Cons.prems(2) Suc by simp
      show "cer t1 t2 = Inr c" by fact
      show "c < round_double (1 / 100)" by fact
      show "\<forall>j<k. \<exists>u c'. normalize_title nfkd (title (ps ! j)) = Inr u \<and> cer u t2 = Inr c'
            \<and> \<not> c' < round_double (1 / 100)"
      proof (intro allI impI)
        fix j assume "j < k"
        then have "Suc j < i" using Suc by simp
        from Cons.prems(5) [rule_format, OF this]
        show "\<exists>u c'. normalize_title nfkd (title (ps ! j)) = Inr u \<and> cer u t2 = Inr c'
            \<and> \<not> c' < round_double (1 / 100)"
          by simp
      qed
    qed
    have "lev_scan nfkd t2 (p # ps) min_cer best =
        (if c' < min_cer then lev_scan nfkd t2 ps c' (Some p)
         else lev_scan nfkd t2 ps min_cer best)"
      by (simp only: lev_scan.simps u then_do.simps if_False)
    also have "\<dots> = Inr (Accepted (ps ! k))"
      by (simp only: rest if_cancel)
    finally show ?thesis
      using Suc by simp
  qed
qed

text \<open>
  When every candidate has a character error rate and none is below 0.01, the loop runs to
  its end: \<open>min_cer\<close> is the least rate (or stays 100.0) and \<open>best\<close> the first
  publication with that rate. \<open>cs\<close> lists the rates of the publications.
\<close>

lemma lev_scan_all:
  assumes "list_all2 (\<lambda>p c. \<exists>u. normalize_title nfkd (title p) = Inr u \<and> cer u t2 = Inr c
              \<and> \<not> c < round_double (1 / 100)) ps cs"
  shows "\<exists>m' b'. lev_scan nfkd t2 ps m b = Inr (Scanned m' b') \<and> m' \<le> m
           \<and> (\<forall>c\<in>set cs. m' \<le> c)
           \<and> ((m' = m \<and> b' = b)
              \<or> (\<exists>i<length ps. cs ! i = m' \<and> m' < m \<and> b' = Some (ps ! i)
                    \<and> (\<forall>j<i. m' < cs ! j)))"
  using assms
proof (induction arbitrary: m b rule: list_all2_induct)
  case Nil
  then show ?case by simp
next
  case (Cons p ps c cs)
  from Cons.hyps(1) obtain u where u: "normalize_title nfkd (title p) = Inr u"
      "cer u t2 = Inr c" "\<not> c < round_double (1 / 100)"
    by blast
  have step: "lev_scan nfkd t2 (p # ps) m b =
      (if c < m then lev_scan nfkd t2 ps c (Some p) else lev_scan nfkd t2 ps m b)"
    by (simp only: lev_scan.simps u then_do.simps if_False)
  show ?case
  proof (cases "c < m")
    case True
    from Cons.IH [of c "Some p"] obtain m' b' where
      r: "lev_scan nfkd t2 ps c (Some p) = Inr (Scanned m' b')" "m' \<le> c"
        "\<forall>c\<in>set cs. m' \<le> c"
      and d: "(m' = c \<and> b' = Some p)
              \<or> (\<exists>i<length ps. cs ! i = m' \<and> m' < c \<and> b' = Some (ps ! i)
                    \<and> (\<forall>j<i. m' < cs ! j))"
      by blast
    have "\<exists>i<length (p # ps). (c # cs) ! i = m' \<and> m' < m \<and> b' = Some ((p # ps) ! i)
                    \<and> (\<forall>j<i. m' < (c # cs) ! j)"
      using d
    proof
      assume "m' = c \<and> b' = Some p"
      with True show ?thesis by (intro exI [of _ 0]) simp
    next
      assume "\<exists>i<length ps. cs ! i = m' \<and> m' < c \<and> b' = Some (ps ! i)
                    \<and> (\<forall>j<i. m' < cs ! j)"
      then obtain i where i: "i < length ps" "cs ! i = m'" "m' < c" "b' = Some (ps ! i)"
          "\<forall>j<i. m' < cs ! j"
        by blast
      have "\<forall>j<Suc i. m' < (c # cs) ! j"
        using i(3,5) by (auto simp: less_Suc_eq_0_disj)
      with i True show ?thesis by (intro exI [of _ "Suc i"]) auto
    qed
    with r True step show ?thesis by auto
  next
    case False
    from Cons.IH [of m b] obtain m' b' where
      r: "lev_scan nfkd t2 ps m b = Inr (Scanned m' b')" "m' \<le> m"
        "\<forall>c\<in>set cs. m' \<le> c"
      and d: "(m' = m \<and> b' = b)
              \<or> (\<exists>i<length ps. cs ! i = m' \<and> m' < m \<and> b' = Some (ps ! i)
                    \<and> (\<forall>j<i. m' < cs ! j))"
      by blast
    have "(m' = m \<and> b' = b) \<or> (\<exists>i<length (p # ps). (c # cs) ! i = m' \<and> m' < m
                    \<and> b' = Some ((p # ps) ! i) \<and> (\<forall>j<i. m' < (c # cs) ! j))"
      using d
    proof
      assume "m' = m \<and> b' = b"
      then show ?thesis by simp
    next
      assume "\<exists>i<length ps. cs ! i = m' \<and> m' < m \<and> b' = Some (ps ! i)
                    \<and> (\<forall>j<i. m' < cs ! j)"
      then obtain i where i: "i < length ps" "cs ! i = m'" "m' < m" "b' = Some (ps ! i)"
          "\<forall>j<i. m' < cs ! j"
        by blast
      have "\<forall>j<Suc i. m' < (c # cs) ! j"
        using i(3,5) False by (auto simp: less_Suc_eq_0_disj)
      with i have "\<exists>i<length (p # ps). (c # cs) ! i = m' \<and> m' < m
                    \<and> b' = Some ((p # ps) ! i) \<and> (\<forall>j<i. m' < (c # cs) ! j)"
        by (intro exI [of _ "Suc i"]) auto
      then show ?thesis ..
    qed
    moreover have "\<forall>c'\<in>set (c # cs). m' \<le> c'"
      using r(2,3) False by auto
    ultimately show ?thesis using r(1,2) False step by auto
  qed
qed

lemma search_scans_all:
  assumes t2: "normalize_title nfkd ttl = Inr t2"
    and all: "list_all2 (\<lambda>p c. \<exists>u. normalize_title nfkd (title p) = Inr u \<and> cer u t2 = Inr c
              \<and> \<not> c < round_double (1 / 100)) publications cs"
    and thr: "threshold \<le> 100"
  shows "(\<exists>i<length publications. cs ! i < threshold \<and> (\<forall>c\<in>set cs. cs ! i \<le> c)
            \<and> (\<forall>j<i. cs ! i < cs ! j)
            \<and> search_by_title nfkd publications ttl True threshold = Inr (Some (publications ! i)))
       \<or> ((\<forall>c\<in>set cs. \<not> c < threshold)
            \<and> search_by_title nfkd publications ttl True threshold = Inr None)"
proof -
  from lev_scan_all [OF all, of 100 None] obtain m' b' where
    r: "lev_scan nfkd t2 publications 100 None = Inr (Scanned m' b')" "m' \<le> 100"
      "\<forall>c\<in>set cs. m' \<le> c"
    and d: "(m' = 100 \<and> b' = None)
              \<or> (\<exists>i<length publications. cs ! i = m' \<and> m' < 100 \<and> b' = Some (publications ! i)
                    \<and> (\<forall>j<i. m' < cs ! j))"
    by blast
  have s: "search_by_title nfkd publications ttl True threshold =
      (if m' < threshold then Inr b' else Inr None)"
    by (simp add: search_by_title_def t2 r(1))
  from d show ?thesis
  proof
    assume "m' = 100 \<and> b' = None"
    with r(3) thr s show ?thesis by fastforce
  next
    assume "\<exists>i<length publications. cs ! i = m' \<and> m' < 100 \<and> b' = Some (publications ! i)
                    \<and> (\<forall>j<i. m' < cs ! j)"
    then obtain i where i: "i < length publications" "cs ! i = m'" "b' = Some (publications ! i)"
        "\<forall>j<i. m' < cs ! j"
      by blast
    show ?thesis
    proof (cases "m' < threshold")
      case True
      with i r(3) s show ?thesis by auto
    next
      case False
      with r(3) s show ?thesis by fastforce
    qed
  qed
qed

lemma below_cutoffD:
  assumes "below_cutoff nfkd candidate target"
  obtains t2 t1 c where "normalize_title nfkd target = Inr t2"
    and "normalize_title nfkd candidate = Inr t1" and "cer t1 t2 = Inr c"
    and "c < round_double (1 / 100)"
proof -
  from assms obtain c where c: "title_cer nfkd candidate target = Inr c"
      "c < round_double (1 / 100)"
    by (auto simp: below_cutoff_def split: sum.splits)
  from c(1) obtain t2 where t2: "normalize_title nfkd target = Inr t2"
    by (cases "normalize_title nfkd target") (simp_all add: title_cer_def)
  from c(1) t2 obtain t1 where t1: "normalize_title nfkd candidate = Inr t1"
    by (cases "normalize_title nfkd candidate") (simp_all add: title_cer_def)
  from c(1) t2 t1 have "cer t1 t2 = Inr c" by (simp add: title_cer_def)
  then show ?thesis by (rule that [OF t2 t1 _ c(2)])
qed

section \<open>Early acceptance does not depend on the threshold\<close>

text \<open>
  Claim C10. In approximate mode (\<open>lev=True\<close>) and for every threshold, in particular
  for every threshold between 0.0 and 1.0 and for 0.0 itself, \<open>search_by_title\<close>
  returns the first publication whose character error rate against the target is below
  0.01, provided such a publication exists and every publication before it has a
  non-empty normalised title.
\<close>

theorem early_accept_any_threshold:
  assumes "i < length publications"
    and "below_cutoff nfkd (title (publications ! i)) ttl"
    and "\<forall>j<i. \<not> below_cutoff nfkd (title (publications ! j)) ttl
           \<and> (\<exists>u. normalize_title nfkd (title (publications ! j)) = Inr u \<and> u \<noteq> [])"
  shows "search_by_title nfkd publications ttl True threshold = Inr (Some (publications ! i))"
proof -
  from assms(2) obtain t2 t1 c where t2: "normalize_title nfkd ttl = Inr t2"
    and t1: "normalize_title nfkd (title (publications ! i)) = Inr t1"
    and c: "cer t1 t2 = Inr c" "c < round_double (1 / 100)"
    by (rule below_cutoffD)
  have earlier: "\<forall>j<i. \<exists>u c'. normalize_title nfkd (title (publications ! j)) = Inr u
      \<and> cer u t2 = Inr c' \<and> \<not> c' < round_double (1 / 100)"
  proof (intro allI impI)
    fix j assume "j < i"
    with assms(3) obtain u where u: "normalize_title nfkd (title (publications ! j)) = Inr u"
        "u \<noteq> []" and no: "\<not> below_cutoff nfkd (title (publications ! j)) ttl"
      by blast
    from u(2) obtain c' where c': "cer u t2 = Inr c'"
      using cer_defined by blast
    with no u(1) t2 have "\<not> c' < round_double (1 / 100)"
      by (simp add: below_cutoff_def title_cer_def)
    with u(1) c' show "\<exists>u c'. normalize_title nfkd (title (publications ! j)) = Inr u
      \<and> cer u t2 = Inr c' \<and> \<not> c' < round_double (1 / 100)"
      by blast
  qed
  have "lev_scan nfkd t2 publications 100 None = Inr (Accepted (publications ! i))"
    using assms(1) t1 c earlier by (rule lev_scan_first)
  then show ?thesis
    by (simp add: search_by_title_def t2)
qed

theorem early_accept_any_threshold_witness:
  "search_by_title nfkd_latin1 [paper ''k1'' ''abd'', paper ''k2'' ''abc''] ''abc'' True 0
     = Inr (Some (paper ''k2'' ''abc''))"
proof -
  let ?ps = "[paper ''k1'' ''abd'', paper ''k2'' ''abc'']"
  have 1: "Suc 0 < length ?ps" by simp
  have 2: "below_cutoff nfkd_latin1 (title (?ps ! Suc 0)) ''abc''"
    by (simp add: below_cutoff_def title_cer_def normalize_abc cer_abc cutoff_pos)
  have 3: "\<forall>j<Suc 0. \<not> below_cutoff nfkd_latin1 (title (?ps ! j)) ''abc''
           \<and> (\<exists>u. normalize_title nfkd_latin1 (title (?ps ! j)) = Inr u \<and> u \<noteq> [])"
    by (simp add: below_cutoff_def title_cer_def normalize_abc normalize_abd cer_abd
        third_not_below)
  from early_accept_any_threshold [OF 1 2 3, of 0] show ?thesis by simp
qed

section \<open>Exact mode\<close>

text \<open>
  Claim C8. In exact mode (\<open>lev\<close> false) the matcher reports a match exactly when the
  two normalised titles are the same string: \<open>_is_target\<close> returns \<open>True\<close>, and
  \<open>search_by_title\<close> on a single publication returns it, if and only if both titles
  normalise to one string. In particular "Deep Learning" matches "deep learning".
\<close>

theorem exact_mode_match:
  "(is_target nfkd t1 t2 False threshold = Inr True \<longleftrightarrow>
      (\<exists>n. normalize_title nfkd t1 = Inr n \<and> normalize_title nfkd t2 = Inr n))
   \<and> (search_by_title nfkd [p] t2 False threshold = Inr (Some p) \<longleftrightarrow>
      (\<exists>n. normalize_title nfkd (title p) = Inr n \<and> normalize_title nfkd t2 = Inr n))
   \<and> is_target nfkd_latin1 ''Deep Learning'' ''deep learning'' False threshold = Inr True"
proof (intro conjI)
  show "is_target nfkd t1 t2 False threshold = Inr True \<longleftrightarrow>
      (\<exists>n. normalize_title nfkd t1 = Inr n \<and> normalize_title nfkd t2 = Inr n)"
    by (cases "normalize_title nfkd t1"; cases "normalize_title nfkd t2")
       (auto simp: is_target_def)
  show "search_by_title nfkd [p] t2 False threshold = Inr (Some p) \<longleftrightarrow>
      (\<exists>n. normalize_title nfkd (title p) = Inr n \<and> normalize_title nfkd t2 = Inr n)"
    by (cases "normalize_title nfkd (title p)"; cases "normalize_title nfkd t2")
       (auto simp: search_by_title_def)
  show "is_target nfkd_latin1 ''Deep Learning'' ''deep learning'' False threshold = Inr True"
    by (simp add: is_target_def normalize_Deep_Learning normalize_deep_learning)
qed

theorem exact_mode_match_witness:
  "is_target nfkd_latin1 ''abd'' ''abc'' False 0 \<noteq> Inr True
   \<and> is_target nfkd_latin1 ''abc'' ''abc'' False 0 = Inr True"
  using exact_mode_match [of nfkd_latin1 "''abd''" "''abc''" 0]
    exact_mode_match [of nfkd_latin1 "''abc''" "''abc''" 0]
  by (simp add: normalize_abc normalize_abd)

section \<open>The normal form of an accented title\<close>

text \<open>
  Claim C6, as stated, fails: the normal form of "G.del, Kurt (1931)!" (the second
  letter, shown as a dot, is U+00F6, the bytes C3 B6 in UTF-8) is not "gdelkurt", and neither is what
  \<open>_remove_accents\<close> alone returns for it.
\<close>

theorem normalize_godel_not_gdelkurt:
  "normalize_title nfkd_latin1 (''G'' @ [CHR 0xC3, CHR 0xB6] @ ''del, Kurt (1931)!'')
     \<noteq> Inr (map of_char ''gdelkurt'')
   \<and> remove_accents nfkd_latin1 ([0x47, 0xF6] @ map of_char ''del, Kurt (1931)!'')
     \<noteq> map of_char ''gdelkurt''"
  unfolding normalize_godel remove_accents_godel by simp

text \<open>
  Claim C6, amended. Normalising "G.del, Kurt (1931)!" (with U+00F6 for the dot) yields
  "godelkurt": the
  decomposition turns U+00F6 into \<open>o\<close> followed by the combining diaeresis U+0308, and
  the filter keeps the \<open>o\<close>.
\<close>

theorem normalize_godel_godelkurt:
  "normalize_title nfkd_latin1 (''G'' @ [CHR 0xC3, CHR 0xB6] @ ''del, Kurt (1931)!'')
     = Inr (map of_char ''godelkurt'')"
  by (rule normalize_godel)

section \<open>Where the code leaves the claims\<close>

text \<open>
  Claim C5 at the title ".cole" whose first letter, shown as a dot, is U+00C9 (the bytes
  C3 89): the
  normal form is "Ecole", with a capital letter. \<open>lower\<close> runs on the bytes before
  they are decoded and leaves C3 89 alone; the decomposition then produces \<open>E\<close>.
\<close>

theorem normalize_keeps_capital:
  "normalize_title nfkd_latin1 ([CHR 0xC3, CHR 0x89] @ ''cole'') = Inr (map of_char ''Ecole'')"
  by (rule normalize_ecole)

text \<open>
  Claim C7 at the title that is the one letter U+00C9: its normal form is \<open>E\<close>, and the
  normal form of \<open>E\<close> is \<open>e\<close>, so normalising twice differs from normalising once.
  The normal form is a \<open>unicode\<close> object of ASCII letters; it goes through the
  pipeline again as the byte string that \<open>_u8\<close> makes of it, which has the same
  characters and on which \<open>lower\<close> and \<open>_un\<close> give what they give on the object.
\<close>

theorem normalize_twice_differs:
  "normalize_title nfkd_latin1 [CHR 0xC3, CHR 0x89] = Inr [0x45]
   \<and> normalize_title nfkd_latin1 (u8 [0x45]) = Inr [0x65]"
  by (simp add: normalize_E_acute normalize_E)

text \<open>
  Claim C1 at a publication titled "2001", whose normal form is empty: the search in
  approximate mode and \<open>_is_target\<close> in approximate mode both raise
  \<open>ZeroDivisionError\<close>, whatever the threshold and whatever publications follow.
\<close>

theorem empty_title_raises:
  "search_by_title nfkd_latin1 (paper k ''2001'' # ps) ''deep learning'' True threshold
     = Inl ZeroDivisionError
   \<and> is_target nfkd_latin1 ''2001'' ''deep learning'' True threshold = Inl ZeroDivisionError"
  by (simp add: search_empty_first [OF normalize_deep_learning] normalize_2001
      is_target_empty [OF normalize_2001 normalize_deep_learning])

text \<open>
  Claim C3 at the publications titled "2001" and "abc", searched for "abc": the second
  has the character error rate 0, below 0.01, and the search raises
  \<open>ZeroDivisionError\<close> at the first instead of returning the second.
\<close>

theorem early_accept_not_reached:
  "search_by_title nfkd_latin1 [paper ''k1'' ''2001'', paper ''k2'' ''abc''] ''abc'' True threshold
     = Inl ZeroDivisionError
   \<and> title_cer nfkd_latin1 ''abc'' ''abc'' = Inr 0"
  by (simp add: search_empty_first [OF normalize_abc] normalize_2001 title_cer_def
      normalize_abc cer_abc)

text \<open>
  Claim C4 at the publications titled "abd" and "2001", searched for "abc": no
  publication is accepted early, the best character error rate is that of "abd", the
  float nearest to 1/3, and the search raises \<open>ZeroDivisionError\<close> at "2001" instead
  of comparing that rate with the threshold.
\<close>

theorem scan_not_completed:
  "search_by_title nfkd_latin1 [paper ''k1'' ''abd'', paper ''k2'' ''2001''] ''abc'' True threshold
     = Inl ZeroDivisionError
   \<and> title_cer nfkd_latin1 ''abd'' ''abc'' = Inr (round_double (1 / 3))
   \<and> \<not> below_cutoff nfkd_latin1 ''abd'' ''abc''"
  by (simp add: search_by_title_def normalize_abc normalize_abd normalize_2001 cer_abd cer_Nil
      third_not_below third_below_100 title_cer_def below_cutoff_def)

end
